theory Spec2Isabelle
  imports Complex_Main
begin

section \<open>The composite model tree of \<^verbatim>\<open>src/core/tgModel.cpp\<close>\<close>

subsection \<open>Objects, pointers and failures\<close>

text \<open>
  A \<^verbatim>\<open>tgModel*\<close> is either the null pointer or the address of an object. Objects live in a
  heap, a partial map from addresses to object states; an address outside the heap's domain
  is a freed or never allocated object. The marker payload (\<^verbatim>\<open>abstractMarker\<close>) and the tag
  set (\<^verbatim>\<open>tgTags\<close>, held by the \<^verbatim>\<open>tgTaggable\<close> base) are declared in other files and are
  type parameters here; both are copied by value.
\<close>

type_synonym addr = nat

datatype ptr = NULL | Ptr addr

record ('m, 't) tgModel =
  m_tags :: 't
  m_children :: "ptr list"
  m_markers :: "'m list"

type_synonym ('m, 't) heap = "addr \<Rightarrow> ('m, 't) tgModel option"

text \<open>
  The ways a call can end other than by returning: \<^verbatim>\<open>std::invalid_argument\<close> with its
  message, a failed \<^verbatim>\<open>assert\<close> with the asserted expression, an access through a null or
  dangling pointer or past the end of a vector (undefined behaviour in C++), and running
  out of fuel, which stands for a recursion that the fuel given does not cover.
  A mutating operation returns \<open>Inr s\<close> with the state after the call, or \<open>Inl (e, s)\<close> with
  the failure and the state in which it was raised.
\<close>

datatype failure =
    InvalidArgument string
  | AssertionFailed string
  | InvalidAccess
  | StackExhausted

text \<open>Reading \<^verbatim>\<open>this->m_children[i]\<close> in the current heap.\<close>

definition child_at :: "('m, 't) heap \<Rightarrow> addr \<Rightarrow> nat \<Rightarrow> failure + ptr" where
  "child_at h this i =
     (case h this of
        None \<Rightarrow> Inl InvalidAccess
      | Some nd \<Rightarrow>
          if i < length (m_children nd) then Inr (m_children nd ! i) else Inl InvalidAccess)"

subsection \<open>\<^verbatim>\<open>tgModel::invariant\<close> and the constructor\<close>

text \<open>
  \<^verbatim>\<open>
  bool tgModel::invariant() const
  {
    // No child is NULL
    // No child appears more than once in the tree
    return true;
  }
  \<close>
\<close>

definition invariant :: "('m, 't) tgModel \<Rightarrow> bool" where
  "invariant this = True"

text \<open>
  \<^verbatim>\<open>tgModel::tgModel(const tgTags& tags)\<close>: a node without children and markers, then
  \<^verbatim>\<open>assert(invariant())\<close>. The default constructor is the same with the default tags.
\<close>

definition tgModel_new :: "'t \<Rightarrow> failure + ('m, 't) tgModel" where
  "tgModel_new tags =
     (let this = \<lparr>m_tags = tags, m_children = [], m_markers = []\<rparr>
      in if invariant this then Inr this else Inl (AssertionFailed ''invariant()''))"

subsection \<open>\<^verbatim>\<open>tgModel::setup\<close>\<close>

text \<open>
  The loop reads \<^verbatim>\<open>m_children.size()\<close> and \<^verbatim>\<open>m_children[i]\<close> in every iteration and calls
  \<^verbatim>\<open>setup\<close> on the child without a null check; the fuel bounds calls and iterations
  together. The \<^verbatim>\<open>tgWorld\<close> is declared elsewhere and is only passed on.
\<close>

fun setup_tgModel ::
    "nat \<Rightarrow> 'w \<Rightarrow> ('m, 't) heap \<Rightarrow> addr \<Rightarrow> (failure \<times> ('m, 't) heap) + ('m, 't) heap"
  and setup_tgModel_loop ::
    "nat \<Rightarrow> 'w \<Rightarrow> ('m, 't) heap \<Rightarrow> addr \<Rightarrow> nat \<Rightarrow>
     (failure \<times> ('m, 't) heap) + ('m, 't) heap" where
  "setup_tgModel 0 world h this = Inl (StackExhausted, h)"
| "setup_tgModel (Suc n) world h this =
     (case setup_tgModel_loop n world h this 0 of
        Inl e \<Rightarrow> Inl e
      | Inr h1 \<Rightarrow>
          (case h1 this of
             None \<Rightarrow> Inl (InvalidAccess, h1)
           | Some nd \<Rightarrow>
               if invariant nd then Inr h1 else Inl (AssertionFailed ''invariant()'', h1)))"
| "setup_tgModel_loop 0 world h this i = Inl (StackExhausted, h)"
| "setup_tgModel_loop (Suc n) world h this i =
     (case h this of
        None \<Rightarrow> Inl (InvalidAccess, h)
      | Some nd \<Rightarrow>
          if \<not> i < length (m_children nd) then Inr h
          else
            (case m_children nd ! i of
               NULL \<Rightarrow> Inl (InvalidAccess, h)
             | Ptr c \<Rightarrow>
                 (case setup_tgModel n world h c of
                    Inl e \<Rightarrow> Inl e
                  | Inr h1 \<Rightarrow> setup_tgModel_loop n world h1 this (Suc i))))"

subsection \<open>\<^verbatim>\<open>tgModel::getDescendants\<close>\<close>

text \<open>
  The loop over the children appends each child and then the result of the recursive call
  on it. The method is \<^verbatim>\<open>const\<close> and returns a fresh vector: it has no heap to return, the
  children vector is the same in every iteration, and the loop is a recursion over it.
  The first argument of \<open>getDescendants\<close> bounds the depth of the recursion.
\<close>

fun getDescendants_loop ::
  "(addr \<Rightarrow> failure + ptr list) \<Rightarrow> ptr list \<Rightarrow> ptr list \<Rightarrow> failure + ptr list" where
  "getDescendants_loop rec [] result = Inr result"
| "getDescendants_loop rec (NULL # cs) result = Inl (AssertionFailed ''pChild != NULL'')"
| "getDescendants_loop rec (Ptr c # cs) result =
     (case rec c of
        Inl e \<Rightarrow> Inl e
      | Inr cd \<Rightarrow> getDescendants_loop rec cs ((result @ [Ptr c]) @ cd))"

primrec getDescendants :: "nat \<Rightarrow> ('m, 't) heap \<Rightarrow> addr \<Rightarrow> failure + ptr list" where
  "getDescendants 0 h this = Inl StackExhausted"
| "getDescendants (Suc n) h this =
     (case h this of
        None \<Rightarrow> Inl InvalidAccess
      | Some nd \<Rightarrow> getDescendants_loop (getDescendants n h) (m_children nd) [])"

subsection \<open>\<^verbatim>\<open>tgModel::addChild\<close>\<close>

text \<open>
  The three precondition checks in the order of the source, then \<^verbatim>\<open>push_back\<close> and the
  three postcondition assertions. The candidate is compared with \<^verbatim>\<open>this\<close> and searched in
  the descendants as a pointer.
\<close>

definition addChild ::
  "nat \<Rightarrow> ('m, 't) heap \<Rightarrow> addr \<Rightarrow> ptr \<Rightarrow> (failure \<times> ('m, 't) heap) + ('m, 't) heap" where
  "addChild n h this pChild =
     (if pChild = NULL then Inl (InvalidArgument ''child is NULL'', h)
      else if pChild = Ptr this then Inl (InvalidArgument ''child is this object'', h)
      else
        (case getDescendants n h this of
           Inl e \<Rightarrow> Inl (e, h)
         | Inr descendants \<Rightarrow>
             if pChild \<in> set descendants
             then Inl (InvalidArgument ''child is already a descendant'', h)
             else
               (case h this of
                  None \<Rightarrow> Inl (InvalidAccess, h)
                | Some nd \<Rightarrow>
                    let nd' = nd\<lparr>m_children := m_children nd @ [pChild]\<rparr>;
                        h' = h(this \<mapsto> nd')
                    in if \<not> invariant nd' then Inl (AssertionFailed ''invariant()'', h')
                       else if m_children nd' = []
                         then Inl (AssertionFailed ''!m_children.empty()'', h')
                       else if pChild \<notin> set (m_children nd')
                         then Inl (AssertionFailed ''find(pChild) != end'', h')
                       else Inr h')))"

subsection \<open>\<^verbatim>\<open>tgModel::step\<close>\<close>

text \<open>
  A \<^verbatim>\<open>double\<close> is a finite value, an infinity or a NaN; \<^verbatim>\<open>dt <= 0.0\<close> is false for a NaN.
\<close>

datatype double = Finite real | PlusInfinity | MinusInfinity | NaN

fun le_zero :: "double \<Rightarrow> bool" where
  "le_zero (Finite r) = (r \<le> 0)"
| "le_zero PlusInfinity = False"
| "le_zero MinusInfinity = True"
| "le_zero NaN = False"

text \<open>
  \<^verbatim>\<open>tgModel::step\<close> writes to no member, so its only effect is the sequence of calls it
  makes. The state it runs in is the heap together with the list of receivers on which
  \<^verbatim>\<open>step\<close> has been entered, in the order of entry. The loop runs \<^verbatim>\<open>n = m_children.size()\<close>
  times, \<^verbatim>\<open>n\<close> read once, and reads \<^verbatim>\<open>m_children[i]\<close> in the current state.
\<close>

record ('m, 't) world =
  objects :: "('m, 't) heap"
  step_calls :: "addr list"

fun step_loop ::
  "(('m, 't) world \<Rightarrow> addr \<Rightarrow> (failure \<times> ('m, 't) world) + ('m, 't) world) \<Rightarrow>
   addr \<Rightarrow> nat \<Rightarrow> nat \<Rightarrow> ('m, 't) world \<Rightarrow> (failure \<times> ('m, 't) world) + ('m, 't) world" where
  "step_loop rec this i 0 w = Inr w"
| "step_loop rec this i (Suc k) w =
     (case child_at (objects w) this i of
        Inl e \<Rightarrow> Inl (e, w)
      | Inr NULL \<Rightarrow> Inl (AssertionFailed ''pChild != NULL'', w)
      | Inr (Ptr c) \<Rightarrow>
          (case rec w c of
             Inl e \<Rightarrow> Inl e
           | Inr w' \<Rightarrow> step_loop rec this (Suc i) k w'))"

primrec step ::
  "nat \<Rightarrow> double \<Rightarrow> ('m, 't) world \<Rightarrow> addr \<Rightarrow> (failure \<times> ('m, 't) world) + ('m, 't) world" where
  "step 0 dt w this = Inl (StackExhausted, w)"
| "step (Suc n) dt w this =
     (let w0 = w\<lparr>step_calls := step_calls w @ [this]\<rparr>
      in if le_zero dt then Inl (InvalidArgument ''dt is not positive'', w0)
         else
           (case objects w0 this of
              None \<Rightarrow> Inl (InvalidAccess, w0)
            | Some nd \<Rightarrow>
                (case step_loop (step n dt) this 0 (length (m_children nd)) w0 of
                   Inl e \<Rightarrow> Inl e
                 | Inr w1 \<Rightarrow>
                     (case objects w1 this of
                        None \<Rightarrow> Inl (InvalidAccess, w1)
                      | Some nd1 \<Rightarrow>
                          if invariant nd1 then Inr w1
                          else Inl (AssertionFailed ''invariant()'', w1)))))"

subsection \<open>\<^verbatim>\<open>tgModel::onVisit\<close>\<close>

text \<open>
  The visitor is declared elsewhere. Its \<^verbatim>\<open>render\<close> is a parameter: a function of the
  address and the state of the node rendered that updates what the visitor has done so
  far. The method is \<^verbatim>\<open>const\<close>, so the heap is the same throughout.
\<close>

fun onVisit_loop ::
  "(addr \<Rightarrow> 'v \<Rightarrow> (failure \<times> 'v) + 'v) \<Rightarrow> ptr list \<Rightarrow> 'v \<Rightarrow> (failure \<times> 'v) + 'v" where
  "onVisit_loop rec [] v = Inr v"
| "onVisit_loop rec (NULL # cs) v = Inl (AssertionFailed ''pChild != NULL'', v)"
| "onVisit_loop rec (Ptr c # cs) v =
     (case rec c v of
        Inl e \<Rightarrow> Inl e
      | Inr v' \<Rightarrow> onVisit_loop rec cs v')"

primrec onVisit ::
  "nat \<Rightarrow> ('m, 't) heap \<Rightarrow> (addr \<Rightarrow> ('m, 't) tgModel \<Rightarrow> 'v \<Rightarrow> 'v) \<Rightarrow> addr \<Rightarrow> 'v \<Rightarrow>
   (failure \<times> 'v) + 'v" where
  "onVisit 0 h render this v = Inl (StackExhausted, v)"
| "onVisit (Suc n) h render this v =
     (case h this of
        None \<Rightarrow> Inl (InvalidAccess, v)
      | Some nd \<Rightarrow>
          (case onVisit_loop (onVisit n h render) (m_children nd) (render this nd v) of
             Inl e \<Rightarrow> Inl e
           | Inr v' \<Rightarrow>
               if invariant nd then Inr v' else Inl (AssertionFailed ''invariant()'', v')))"

subsection \<open>\<^verbatim>\<open>tgModel::~tgModel\<close> and \<^verbatim>\<open>tgModel::teardown\<close>\<close>

text \<open>
  \<^verbatim>\<open>delete p\<close> runs the destructor, which deletes every child (\<^verbatim>\<open>n\<close> read once, each child
  asserted non-null), and then frees the object.
\<close>

fun destructor_loop ::
  "(('m, 't) heap \<Rightarrow> addr \<Rightarrow> (failure \<times> ('m, 't) heap) + ('m, 't) heap) \<Rightarrow>
   addr \<Rightarrow> nat \<Rightarrow> nat \<Rightarrow> ('m, 't) heap \<Rightarrow> (failure \<times> ('m, 't) heap) + ('m, 't) heap" where
  "destructor_loop rec this i 0 h = Inr h"
| "destructor_loop rec this i (Suc k) h =
     (case child_at h this i of
        Inl e \<Rightarrow> Inl (e, h)
      | Inr NULL \<Rightarrow> Inl (AssertionFailed ''pChild != NULL'', h)
      | Inr (Ptr c) \<Rightarrow>
          (case rec h c of
             Inl e \<Rightarrow> Inl e
           | Inr h' \<Rightarrow> destructor_loop rec this (Suc i) k h'))"

primrec delete_tgModel ::
  "nat \<Rightarrow> ('m, 't) heap \<Rightarrow> addr \<Rightarrow> (failure \<times> ('m, 't) heap) + ('m, 't) heap" where
  "delete_tgModel 0 h p = Inl (StackExhausted, h)"
| "delete_tgModel (Suc n) h p =
     (case h p of
        None \<Rightarrow> Inl (InvalidAccess, h)
      | Some nd \<Rightarrow>
          (case destructor_loop (delete_tgModel n) p 0 (length (m_children nd)) h of
             Inl e \<Rightarrow> Inl e
           | Inr h' \<Rightarrow> Inr (h'(p := None))))"

text \<open>
  The loop of \<^verbatim>\<open>teardown\<close> reads \<^verbatim>\<open>m_children.size()\<close> and \<^verbatim>\<open>m_children[i]\<close> anew in every
  iteration, so it is a recursion on the index in the current heap; the fuel bounds calls
  and iterations together. A null child is dereferenced without a check.
\<close>

fun teardown ::
    "nat \<Rightarrow> ('m, 't) heap \<Rightarrow> addr \<Rightarrow> (failure \<times> ('m, 't) heap) + ('m, 't) heap"
  and teardown_loop ::
    "nat \<Rightarrow> ('m, 't) heap \<Rightarrow> addr \<Rightarrow> nat \<Rightarrow> (failure \<times> ('m, 't) heap) + ('m, 't) heap" where
  "teardown 0 h this = Inl (StackExhausted, h)"
| "teardown (Suc n) h this =
     (case teardown_loop n h this 0 of
        Inl e \<Rightarrow> Inl e
      | Inr h1 \<Rightarrow>
          (case h1 this of
             None \<Rightarrow> Inl (InvalidAccess, h1)
           | Some nd \<Rightarrow>
               let nd' = nd\<lparr>m_children := [], m_markers := []\<rparr>;
                   h2 = h1(this \<mapsto> nd')
               in if \<not> invariant nd' then Inl (AssertionFailed ''invariant()'', h2)
                  else if m_children nd' \<noteq> []
                    then Inl (AssertionFailed ''m_children.empty()'', h2)
                  else Inr h2))"
| "teardown_loop 0 h this i = Inl (StackExhausted, h)"
| "teardown_loop (Suc n) h this i =
     (case h this of
        None \<Rightarrow> Inl (InvalidAccess, h)
      | Some nd \<Rightarrow>
          if \<not> i < length (m_children nd) then Inr h
          else
            (case m_children nd ! i of
               NULL \<Rightarrow> Inl (InvalidAccess, h)
             | Ptr c \<Rightarrow>
                 (case teardown n h c of
                    Inl e \<Rightarrow> Inl e
                  | Inr h1 \<Rightarrow>
                      (case child_at h1 this i of
                         Inl e \<Rightarrow> Inl (e, h1)
                       | Inr NULL \<Rightarrow> teardown_loop n h1 this (Suc i)
                       | Inr (Ptr d) \<Rightarrow>
                           (case delete_tgModel n h1 d of
                              Inl e \<Rightarrow> Inl e
                            | Inr h2 \<Rightarrow> teardown_loop n h2 this (Suc i))))))"

subsection \<open>Markers: \<^verbatim>\<open>getMarkers\<close>, \<^verbatim>\<open>addMarker\<close>, \<^verbatim>\<open>getSenseableDescendants\<close>\<close>

definition getMarkers :: "('m, 't) heap \<Rightarrow> addr \<Rightarrow> failure + 'm list" where
  "getMarkers h this =
     (case h this of None \<Rightarrow> Inl InvalidAccess | Some nd \<Rightarrow> Inr (m_markers nd))"

text \<open>
  \<^verbatim>\<open>void tgModel::addMarker(abstractMarker a)\<close> takes its argument by value and
  \<^verbatim>\<open>push_back\<close> copies it into the vector.
\<close>

definition addMarker ::
  "('m, 't) heap \<Rightarrow> addr \<Rightarrow> 'm \<Rightarrow> (failure \<times> ('m, 't) heap) + ('m, 't) heap" where
  "addMarker h this a =
     (case h this of
        None \<Rightarrow> Inl (InvalidAccess, h)
      | Some nd \<Rightarrow> Inr (h(this \<mapsto> nd\<lparr>m_markers := m_markers nd @ [a]\<rparr>)))"

text \<open>
  The caller of \<^verbatim>\<open>addMarker\<close> holds its marker in a variable of its own; the variables of
  the caller are a map from names to marker values. The call passes the current value of
  the variable; a later assignment changes the variable.
\<close>

type_synonym 'm vars = "string \<Rightarrow> 'm"

datatype 'm caller_op = CallAddMarker addr string | Assign string 'm

fun caller_run ::
  "'m caller_op list \<Rightarrow> 'm vars \<times> ('m, 't) heap \<Rightarrow>
   (failure \<times> 'm vars \<times> ('m, 't) heap) + 'm vars \<times> ('m, 't) heap" where
  "caller_run [] s = Inr s"
| "caller_run (CallAddMarker this x # ops) (vs, h) =
     (case addMarker h this (vs x) of
        Inl (e, h') \<Rightarrow> Inl (e, vs, h')
      | Inr h' \<Rightarrow> caller_run ops (vs, h'))"
| "caller_run (Assign x m # ops) (vs, h) = caller_run ops (vs(x := m), h)"

text \<open>
  A \<^verbatim>\<open>tgSenseable*\<close> points to a model or to a marker. A marker object is an element of a
  vector: of the \<^verbatim>\<open>m_markers\<close> of a node, or of the local vector \<^verbatim>\<open>myMarkers\<close> of a call of
  \<^verbatim>\<open>getSenseableDescendants\<close>. The source initialises \<^verbatim>\<open>myMarkers\<close> as a
  \<^verbatim>\<open>std::vector<abstractMarker>\<close> from the reference that \<^verbatim>\<open>getMarkers()\<close> returns, which
  copies the markers, and pushes \<^verbatim>\<open>&(myMarkers[k])\<close>. The output to \<^verbatim>\<open>std::cout\<close> is left
  out.
\<close>

datatype marker_loc = OwnedMarker addr nat | LocalCopy nat

datatype senseable_ptr = ModelPtr ptr | MarkerPtr marker_loc

definition getSenseableDescendants ::
  "nat \<Rightarrow> ('m, 't) heap \<Rightarrow> addr \<Rightarrow> failure + senseable_ptr list" where
  "getSenseableDescendants n h this =
     (case getDescendants n h this of
        Inl e \<Rightarrow> Inl e
      | Inr myDescendants \<Rightarrow>
          (let mySenseableDescendants = map ModelPtr myDescendants
           in case getMarkers h this of
                Inl e \<Rightarrow> Inl e
              | Inr myMarkers \<Rightarrow>
                  (let pointersToMarkers =
                         map (\<lambda>k. MarkerPtr (LocalCopy k)) [0..<length myMarkers]
                   in Inr (mySenseableDescendants @ pointersToMarkers))))"

text \<open>
  What a marker pointer refers to once the call has returned: an element of a node's own
  vector, if the node and the element exist; nothing for an element of \<^verbatim>\<open>myMarkers\<close>,
  which is destroyed when \<^verbatim>\<open>getSenseableDescendants\<close> returns.
\<close>

fun marker_at :: "('m, 't) heap \<Rightarrow> marker_loc \<Rightarrow> 'm option" where
  "marker_at h (OwnedMarker a k) =
     (case h a of
        None \<Rightarrow> None
      | Some nd \<Rightarrow> if k < length (m_markers nd) then Some (m_markers nd ! k) else None)"
| "marker_at h (LocalCopy k) = None"

subsection \<open>Tree-shaped heaps\<close>

text \<open>
  The shape of the subtree below a node: the node's address and the shapes below its
  children, in child order. \<open>tree_at h p t\<close> says that the objects reachable from \<open>p\<close> in
  \<open>h\<close> have the shape \<open>t\<close>: every child pointer is non-null and points to an allocated
  object, and the structure is finite, hence acyclic. \<open>preorder\<close> lists a shape depth
  first, a node before its children and the children in child order; \<open>strict_preorder\<close>
  leaves the root out. \<open>child_edges\<close> is the relation between a node and its children.
\<close>

datatype tree = Tree addr "tree list"

declare list.rel_cong [fundef_cong]

fun tree_at :: "('m, 't) heap \<Rightarrow> ptr \<Rightarrow> tree \<Rightarrow> bool" where
  "tree_at h p (Tree a ts) =
     (p = Ptr a \<and>
      (case h a of
         None \<Rightarrow> False
       | Some nd \<Rightarrow> list_all2 (tree_at h) (m_children nd) ts))"

fun tree_root :: "tree \<Rightarrow> addr" where
  "tree_root (Tree a ts) = a"

fun subtrees :: "tree \<Rightarrow> tree list" where
  "subtrees (Tree a ts) = ts"

fun preorder :: "tree \<Rightarrow> addr list" where
  "preorder (Tree a ts) = a # concat (map preorder ts)"

fun strict_preorder :: "tree \<Rightarrow> addr list" where
  "strict_preorder (Tree a ts) = concat (map preorder ts)"

fun height :: "tree \<Rightarrow> nat" where
  "height (Tree a ts) = Suc (foldr max (map height ts) 0)"

definition child_edges :: "('m, 't) heap \<Rightarrow> (addr \<times> addr) set" where
  "child_edges h = {(a, c). \<exists>nd. h a = Some nd \<and> Ptr c \<in> set (m_children nd)}"

subsection \<open>A model under assembly\<close>

text \<open>
  A root at address 1 with the children 2 and 4, in this order; 2 has the child 3. The
  root owns the marker 10 and node 3 owns the marker 20. Address 0 is not allocated.
\<close>

definition example_heap :: "(nat, string list) heap" where
  "example_heap =
     [1 \<mapsto> \<lparr>m_tags = [''root''], m_children = [Ptr 2, Ptr 4], m_markers = [10]\<rparr>,
      2 \<mapsto> \<lparr>m_tags = [], m_children = [Ptr 3], m_markers = []\<rparr>,
      3 \<mapsto> \<lparr>m_tags = [], m_children = [], m_markers = [20]\<rparr>,
      4 \<mapsto> \<lparr>m_tags = [], m_children = [], m_markers = []\<rparr>]"

definition example_torn_down :: "(nat, string list) heap" where
  "example_torn_down = [1 \<mapsto> \<lparr>m_tags = [''root''], m_children = [], m_markers = []\<rparr>]"

definition example_tree :: tree where
  "example_tree = Tree 1 [Tree 2 [Tree 3 []], Tree 4 []]"

text \<open>
  The heap after node 3 has taken the root as its child, and a state and a visitor to run
  \<^verbatim>\<open>step\<close> and \<^verbatim>\<open>onVisit\<close> in: no call of \<^verbatim>\<open>step\<close> made yet, and a visitor that records the
  address of every node rendered.
\<close>

definition example_cycle :: "(nat, string list) heap" where
  "example_cycle =
     example_heap(3 \<mapsto> \<lparr>m_tags = [], m_children = [Ptr 1], m_markers = [20]\<rparr>)"

definition example_world :: "(nat, string list) world" where
  "example_world = \<lparr>objects = example_heap, step_calls = []\<rparr>"

definition record_render :: "addr \<Rightarrow> ('m, 't) tgModel \<Rightarrow> addr list \<Rightarrow> addr list" where
  "record_render a nd visited = visited @ [a]"

definition example_vars :: "nat vars" where
  "example_vars = (\<lambda>x. 0)(''m'' := 7)"

subsection \<open>The heap after a teardown\<close>

text \<open>
  What \<^verbatim>\<open>teardown\<close> leaves of a tree-shaped subtree: the root without children and
  markers, and none of the nodes below it. \<open>teardown_fuel\<close> is the fuel that the calls and
  loop iterations of \<^verbatim>\<open>teardown\<close> on a subtree of a given shape use.
\<close>

definition cleared :: "('m, 't) tgModel \<Rightarrow> ('m, 't) tgModel" where
  "cleared nd = nd\<lparr>m_children := [], m_markers := []\<rparr>"

definition after_teardown :: "('m, 't) heap \<Rightarrow> tree \<Rightarrow> ('m, 't) heap" where
  "after_teardown h t =
     (\<lambda>x. if x = tree_root t then map_option cleared (h x)
          else if x \<in> set (strict_preorder t) then None
          else h x)"

fun teardown_fuel :: "tree \<Rightarrow> nat"
  and teardown_loop_fuel :: "tree list \<Rightarrow> nat" where
  "teardown_fuel (Tree a ts) = Suc (teardown_loop_fuel ts)"
| "teardown_loop_fuel [] = 1"
| "teardown_loop_fuel (u # us) = Suc (max (teardown_fuel u) (teardown_loop_fuel us))"

section \<open>Properties of the operations on tree-shaped heaps\<close>

subsection \<open>Descendants of a tree-shaped node\<close>

lemma height_le_foldr_max:
  "t \<in> set ts \<Longrightarrow> height t \<le> foldr max (map height ts) 0"
  by (induction ts) auto

lemma tree_at_TreeE:
  assumes "tree_at h p (Tree a ts)"
  obtains nd where "p = Ptr a" and "h a = Some nd"
    and "list_all2 (tree_at h) (m_children nd) ts"
  using assms by (cases "h a") simp_all

lemma getDescendants_loop_trees:
  assumes rec: "\<And>c t. t \<in> set ts \<Longrightarrow> tree_at h (Ptr c) t \<Longrightarrow>
                  rec c = Inr (map Ptr (strict_preorder t))"
    and all: "list_all2 (tree_at h) cs ts"
  shows "getDescendants_loop rec cs acc = Inr (acc @ map Ptr (concat (map preorder ts)))"
  using all rec
proof (induction cs ts arbitrary: acc rule: list_all2_induct)
  case Nil
  then show ?case by simp
next
  case (Cons c cs t ts)
  obtain a us where t: "t = Tree a us" by (cases t)
  from Cons.hyps(1) t have c: "c = Ptr a" by simp
  have "rec a = Inr (map Ptr (strict_preorder t))"
    using Cons.prems [of t a] Cons.hyps(1) c by simp
  moreover have "getDescendants_loop rec cs acc' =
      Inr (acc' @ map Ptr (concat (map preorder ts)))" for acc'
    using Cons.IH [of acc'] Cons.prems by simp
  ultimately show ?case using c t by simp
qed

lemma getDescendants_tree:
  "tree_at h (Ptr a) t \<Longrightarrow> height t \<le> n \<Longrightarrow>
   getDescendants n h a = Inr (map Ptr (strict_preorder t))"
proof (induction n arbitrary: a t)
  case 0
  then show ?case by (cases t) simp
next
  case (Suc n)
  obtain b ts where t: "t = Tree b ts" by (cases t)
  from Suc.prems(1) t have "tree_at h (Ptr a) (Tree b ts)" by simp
  then obtain nd where b: "Ptr a = Ptr b" and nd: "h b = Some nd"
    and all: "list_all2 (tree_at h) (m_children nd) ts"
    by (rule tree_at_TreeE)
  have "getDescendants_loop (getDescendants n h) (m_children nd) [] =
      Inr ([] @ map Ptr (concat (map preorder ts)))"
  proof (rule getDescendants_loop_trees [OF _ all])
    fix c u
    assume u: "u \<in> set ts" and at: "tree_at h (Ptr c) u"
    from u have "height u \<le> foldr max (map height ts) 0" by (rule height_le_foldr_max)
    with Suc.prems(2) t have "height u \<le> n" by simp
    with at show "getDescendants n h c = Inr (map Ptr (strict_preorder u))"
      by (rule Suc.IH)
  qed
  with nd b t show ?case by simp
qed

subsection \<open>Descendants and reachability\<close>

lemma list_all2_left_ex:
  "list_all2 P xs ys \<Longrightarrow> x \<in> set xs \<Longrightarrow> \<exists>y\<in>set ys. P x y"
  by (induction rule: list_all2_induct) auto

lemma list_all2_right_ex:
  "list_all2 P xs ys \<Longrightarrow> y \<in> set ys \<Longrightarrow> \<exists>x\<in>set xs. P x y"
  by (induction rule: list_all2_induct) auto

lemma tree_at_root: "tree_at h p t \<Longrightarrow> p = Ptr (tree_root t)"
  by (cases t) simp

lemma preorder_root: "preorder t = tree_root t # strict_preorder t"
  by (cases t) simp

lemma child_edgesI:
  "h a = Some nd \<Longrightarrow> Ptr c \<in> set (m_children nd) \<Longrightarrow> (a, c) \<in> child_edges h"
  by (auto simp: child_edges_def)

lemma strict_preorder_reachable:
  "tree_at h (Ptr a) t \<Longrightarrow> q \<in> set (strict_preorder t) \<Longrightarrow> (a, q) \<in> (child_edges h)\<^sup>+"
proof (induction t arbitrary: a q)
  case (Tree b ts)
  from Tree.prems(1) obtain nd where b: "Ptr a = Ptr b" and nd: "h b = Some nd"
    and all: "list_all2 (tree_at h) (m_children nd) ts"
    by (rule tree_at_TreeE)
  from Tree.prems(2) obtain u where u: "u \<in> set ts" and q: "q \<in> set (preorder u)"
    by auto
  from all u obtain c where c: "c \<in> set (m_children nd)" and cu: "tree_at h c u"
    by (blast dest: list_all2_right_ex)
  from cu have c_eq: "c = Ptr (tree_root u)" by (rule tree_at_root)
  with c nd b have edge: "(a, tree_root u) \<in> child_edges h"
    by (auto intro: child_edgesI)
  show ?case
  proof (cases "q = tree_root u")
    case True
    with edge show ?thesis by blast
  next
    case False
    with q have "q \<in> set (strict_preorder u)" by (simp add: preorder_root)
    with Tree.IH [OF u] cu c_eq have "(tree_root u, q) \<in> (child_edges h)\<^sup>+" by simp
    with edge show ?thesis by (rule trancl_into_trancl2)
  qed
qed

lemma reachable_strict_preorder:
  "tree_at h (Ptr a) t \<Longrightarrow> (a, q) \<in> (child_edges h)\<^sup>+ \<Longrightarrow> q \<in> set (strict_preorder t)"
proof (induction t arbitrary: a q)
  case (Tree b ts)
  from Tree.prems(1) obtain nd where b: "Ptr a = Ptr b" and nd: "h b = Some nd"
    and all: "list_all2 (tree_at h) (m_children nd) ts"
    by (rule tree_at_TreeE)
  from Tree.prems(2) obtain c where ac: "(a, c) \<in> child_edges h"
    and cq: "(c, q) \<in> (child_edges h)\<^sup>*"
    by (blast dest: tranclD)
  from ac nd b have "Ptr c \<in> set (m_children nd)" by (auto simp: child_edges_def)
  with all obtain u where u: "u \<in> set ts" and cu: "tree_at h (Ptr c) u"
    by (blast dest: list_all2_left_ex)
  from cu have ru: "tree_root u = c" by (auto dest: tree_at_root)
  have "q \<in> set (preorder u)"
  proof (cases "c = q")
    case True
    with ru show ?thesis by (simp add: preorder_root)
  next
    case False
    with cq have "(c, q) \<in> (child_edges h)\<^sup>+" by (auto dest: rtranclD)
    with Tree.IH [OF u cu] show ?thesis by (simp add: preorder_root)
  qed
  with u show ?case by auto
qed

subsection \<open>A heap has one shape below a node, and no node is below itself\<close>

lemma list_all2_functional:
  assumes "list_all2 P cs ts" and "list_all2 P cs ts'"
    and "\<And>c t t'. t \<in> set ts \<Longrightarrow> P c t \<Longrightarrow> P c t' \<Longrightarrow> t = t'"
  shows "ts = ts'"
  using assms
proof (induction cs ts arbitrary: ts' rule: list_all2_induct)
  case Nil
  then show ?case by simp
next
  case (Cons c cs t ts)
  from Cons.prems(1) obtain u us where ts': "ts' = u # us" and cu: "P c u"
    and rest: "list_all2 P cs us"
    by (auto simp: list_all2_Cons1)
  from Cons.hyps(1) cu Cons.prems(2) have "t = u" by simp
  moreover from rest Cons.prems(2) have "ts = us" by (intro Cons.IH) auto
  ultimately show ?case using ts' by simp
qed

lemma tree_at_unique:
  "tree_at h p t \<Longrightarrow> tree_at h p t' \<Longrightarrow> t = t'"
proof (induction t arbitrary: p t')
  case (Tree a ts)
  obtain a' ts' where t': "t' = Tree a' ts'" by (cases t')
  from Tree.prems(1) obtain nd where p: "p = Ptr a" and nd: "h a = Some nd"
    and all: "list_all2 (tree_at h) (m_children nd) ts"
    by (rule tree_at_TreeE)
  from Tree.prems(2) t' have "tree_at h p (Tree a' ts')" by simp
  then obtain nd' where p': "p = Ptr a'" and nd': "h a' = Some nd'"
    and all': "list_all2 (tree_at h) (m_children nd') ts'"
    by (rule tree_at_TreeE)
  from p p' have a: "a' = a" by simp
  with nd nd' have "nd' = nd" by simp
  with all' have all': "list_all2 (tree_at h) (m_children nd) ts'" by simp
  from all all' have "ts = ts'"
    by (rule list_all2_functional) (rule Tree.IH)
  with a t' show ?case by simp
qed

text \<open>Every address below the root is the root of a strictly smaller tree of the heap.\<close>

lemma strict_preorder_subtree:
  "tree_at h p t \<Longrightarrow> q \<in> set (strict_preorder t) \<Longrightarrow>
   \<exists>u. tree_at h (Ptr q) u \<and> size u < size t"
proof (induction t arbitrary: p q)
  case (Tree a ts)
  from Tree.prems(1) obtain nd where nd: "h a = Some nd"
    and all: "list_all2 (tree_at h) (m_children nd) ts"
    by (rule tree_at_TreeE)
  from Tree.prems(2) obtain u where u: "u \<in> set ts" and q: "q \<in> set (preorder u)"
    by auto
  from all u obtain c where cu: "tree_at h c u"
    by (blast dest: list_all2_right_ex)
  from u have small: "size u < size (Tree a ts)"
    by (simp add: less_Suc_eq_le size_list_estimation')
  show ?case
  proof (cases "q = tree_root u")
    case True
    with cu small show ?thesis by (auto dest: tree_at_root)
  next
    case False
    with q have "q \<in> set (strict_preorder u)" by (simp add: preorder_root)
    with Tree.IH [OF u cu] small show ?thesis by (meson less_trans)
  qed
qed

lemma root_not_below:
  assumes "tree_at h (Ptr a) t"
  shows "a \<notin> set (strict_preorder t)"
proof
  assume "a \<in> set (strict_preorder t)"
  with assms have "\<exists>u. tree_at h (Ptr a) u \<and> size u < size t"
    by (rule strict_preorder_subtree)
  then obtain u where "tree_at h (Ptr a) u" and "size u < size t"
    by blast
  with assms show False by (auto dest: tree_at_unique)
qed

subsection \<open>Adding a child, stepping and visiting on a tree-shaped node\<close>

lemma addChild_tree:
  assumes "tree_at h (Ptr a) t" and "height t \<le> n" and "h a = Some nd"
  shows "addChild n h a p =
     (if p = NULL then Inl (InvalidArgument ''child is NULL'', h)
      else if p = Ptr a then Inl (InvalidArgument ''child is this object'', h)
      else if p \<in> Ptr ` set (strict_preorder t)
        then Inl (InvalidArgument ''child is already a descendant'', h)
      else Inr (h(a \<mapsto> nd\<lparr>m_children := m_children nd @ [p]\<rparr>)))"
  using getDescendants_tree [OF assms(1,2)] assms(3)
  by (simp add: addChild_def invariant_def Let_def)

lemma list_all2_dropE:
  assumes "list_all2 P (drop i cs) (u # us)"
  obtains "i < length cs" and "P (cs ! i) u" and "list_all2 P (drop (Suc i) cs) us"
proof -
  from assms obtain c cs' where d: "drop i cs = c # cs'" and p: "P c u"
    and rest: "list_all2 P cs' us"
    by (auto simp: list_all2_Cons2)
  from d have i: "i < length cs" by (cases "i < length cs") simp_all
  from i d have "cs ! i = c" and "drop (Suc i) cs = cs'"
    by (simp_all flip: Cons_nth_drop_Suc)
  with i p rest that show thesis by simp
qed

lemma step_loop_tree:
  assumes rec: "\<And>w c u. u \<in> set us \<Longrightarrow> objects w = h \<Longrightarrow> tree_at h (Ptr c) u \<Longrightarrow>
                  rec w c = Inr (w\<lparr>step_calls := step_calls w @ preorder u\<rparr>)"
    and nd: "h a = Some nd"
    and all: "list_all2 (tree_at h) (drop i (m_children nd)) us"
    and k: "length us = k"
    and w: "objects w = h"
  shows "step_loop rec a i k w =
           Inr (w\<lparr>step_calls := step_calls w @ concat (map preorder us)\<rparr>)"
  using rec all k w
proof (induction k arbitrary: i us w)
  case 0
  then show ?case by simp
next
  case (Suc k)
  from Suc.prems(3) obtain u us' where us: "us = u # us'" and k: "length us' = k"
    by (cases us) auto
  from Suc.prems(2) us have "list_all2 (tree_at h) (drop i (m_children nd)) (u # us')"
    by simp
  then obtain i: "i < length (m_children nd)" and cu: "tree_at h (m_children nd ! i) u"
    and rest: "list_all2 (tree_at h) (drop (Suc i) (m_children nd)) us'"
    by (rule list_all2_dropE)
  from cu have c: "m_children nd ! i = Ptr (tree_root u)" by (rule tree_at_root)
  from i c nd Suc.prems(4) have child: "child_at (objects w) a i = Inr (Ptr (tree_root u))"
    by (simp add: child_at_def)
  let ?w' = "w\<lparr>step_calls := step_calls w @ preorder u\<rparr>"
  from cu c have "rec w (tree_root u) = Inr ?w'"
    using Suc.prems(1) [of u w "tree_root u"] Suc.prems(4) us by simp
  moreover have "step_loop rec a (Suc i) k ?w' =
      Inr (?w'\<lparr>step_calls := step_calls ?w' @ concat (map preorder us')\<rparr>)"
    using Suc.prems(1) rest k Suc.prems(4) us by (intro Suc.IH) simp_all
  ultimately show ?case using child us by simp
qed

lemma step_tree:
  fixes w :: "('m, 't) world"
  shows "tree_at (objects w) (Ptr a) t \<Longrightarrow> height t \<le> n \<Longrightarrow> \<not> le_zero dt \<Longrightarrow>
    step n dt w a = Inr (w\<lparr>step_calls := step_calls w @ preorder t\<rparr>)"
proof (induction n arbitrary: a t w)
  case 0
  then show ?case by (cases t) simp
next
  case (Suc n)
  obtain b ts where t: "t = Tree b ts" by (cases t)
  with Suc.prems(1) have "tree_at (objects w) (Ptr a) (Tree b ts)" by simp
  then obtain nd where b: "Ptr a = Ptr b" and nd: "objects w b = Some nd"
    and all: "list_all2 (tree_at (objects w)) (m_children nd) ts"
    by (rule tree_at_TreeE)
  let ?w0 = "w\<lparr>step_calls := step_calls w @ [a]\<rparr>"
  have len: "length ts = length (m_children nd)"
    using all by (simp add: list_all2_lengthD)
  have "step_loop (step n dt) b 0 (length ts) ?w0 =
      Inr (?w0\<lparr>step_calls := step_calls ?w0 @ concat (map preorder ts)\<rparr>)"
  proof (rule step_loop_tree [where h = "objects w" and nd = nd])
    fix w' :: "('m, 't) world" and c u
    assume u: "u \<in> set ts" and w': "objects w' = objects w"
      and at: "tree_at (objects w) (Ptr c) u"
    from u have "height u \<le> foldr max (map height ts) 0" by (rule height_le_foldr_max)
    with Suc.prems(2) t have "height u \<le> n" by simp
    with at w' Suc.prems(3)
    show "step n dt w' c = Inr (w'\<lparr>step_calls := step_calls w' @ preorder u\<rparr>)"
      by (intro Suc.IH) simp_all
  qed (use nd all in simp_all)
  with nd b t len Suc.prems(3) show ?case
    by (simp add: invariant_def)
qed

lemma onVisit_loop_trees:
  assumes rec: "\<And>c u v. u \<in> set us \<Longrightarrow> tree_at h (Ptr c) u \<Longrightarrow>
                  rec c v = Inr (fold f (preorder u) v)"
    and all: "list_all2 (tree_at h) cs us"
  shows "onVisit_loop rec cs v = Inr (fold f (concat (map preorder us)) v)"
  using all rec
proof (induction cs us arbitrary: v rule: list_all2_induct)
  case Nil
  then show ?case by simp
next
  case (Cons c cs u us)
  from Cons.hyps(1) have c: "c = Ptr (tree_root u)" by (rule tree_at_root)
  with Cons.hyps(1) have "rec (tree_root u) v = Inr (fold f (preorder u) v)"
    using Cons.prems [of u "tree_root u" v] by simp
  moreover have "onVisit_loop rec cs v' = Inr (fold f (concat (map preorder us)) v')" for v'
    using Cons.IH [of v'] Cons.prems by simp
  ultimately show ?case using c by simp
qed

lemma onVisit_tree:
  "tree_at h (Ptr a) t \<Longrightarrow> height t \<le> n \<Longrightarrow>
   onVisit n h render a v = Inr (fold (\<lambda>q. render q (the (h q))) (preorder t) v)"
proof (induction n arbitrary: a t v)
  case 0
  then show ?case by (cases t) simp
next
  case (Suc n)
  obtain b ts where t: "t = Tree b ts" by (cases t)
  with Suc.prems(1) have "tree_at h (Ptr a) (Tree b ts)" by simp
  then obtain nd where b: "Ptr a = Ptr b" and nd: "h b = Some nd"
    and all: "list_all2 (tree_at h) (m_children nd) ts"
    by (rule tree_at_TreeE)
  have "onVisit_loop (onVisit n h render) (m_children nd) v' =
      Inr (fold (\<lambda>q. render q (the (h q))) (concat (map preorder ts)) v')" for v'
  proof (rule onVisit_loop_trees [OF _ all])
    fix c u v
    assume u: "u \<in> set ts" and at: "tree_at h (Ptr c) u"
    from u have "height u \<le> foldr max (map height ts) 0" by (rule height_le_foldr_max)
    with Suc.prems(2) t have "height u \<le> n" by simp
    with at show "onVisit n h render c v = Inr (fold (\<lambda>q. render q (the (h q))) (preorder u) v)"
      by (rule Suc.IH)
  qed
  with nd b t show ?case by (simp add: invariant_def)
qed

subsection \<open>Teardown of a tree-shaped node\<close>

text \<open>The shape below a node depends only on the objects at the addresses of the shape.\<close>

lemma tree_at_frame:
  "(\<And>x. x \<in> set (preorder t) \<Longrightarrow> h' x = h x) \<Longrightarrow> tree_at h' p t = tree_at h p t"
proof (induction t arbitrary: p)
  case (Tree a ts)
  have a: "h' a = h a" using Tree.prems by simp
  have "list_all2 (tree_at h') cs ts = list_all2 (tree_at h) cs ts" for cs
  proof (rule list.rel_cong [OF refl refl])
    fix c u
    assume u: "u \<in> set ts"
    show "tree_at h' c u = tree_at h c u"
      using u Tree.prems by (intro Tree.IH) auto
  qed
  with a show ?case by (simp split: option.splits)
qed

lemma teardown_fuel_ge2: "2 \<le> teardown_fuel t"
  by (cases t; cases "subtrees t") auto

lemma delete_cleared:
  assumes "h r = Some nd" and "m_children nd = []"
  shows "delete_tgModel (Suc n) h r = Inr (h(r := None))"
  using assms by simp

lemma teardown_loop_trees:
  fixes H :: "('m, 't) heap"
  assumes IH: "\<And>u (H :: ('m, 't) heap) c n. u \<in> set us \<Longrightarrow> tree_at H (Ptr c) u \<Longrightarrow> distinct (preorder u) \<Longrightarrow>
                 teardown_fuel u \<le> n \<Longrightarrow> teardown n H c = Inr (after_teardown H u)"
    and nd: "H a = Some nd"
    and all: "list_all2 (tree_at H) (drop i (m_children nd)) us"
    and dist: "distinct (a # concat (map preorder us))"
    and fuel: "teardown_loop_fuel us \<le> n"
  shows "teardown_loop n H a i = Inr (H |` (- set (concat (map preorder us))))"
  using assms
proof (induction us arbitrary: H i n)
  case Nil
  then obtain n' where n: "n = Suc n'" by (cases n) auto
  from Nil.prems(3) have "\<not> i < length (m_children nd)" by simp
  with n Nil.prems(2) show ?case by simp
next
  case (Cons u us)
  from Cons.prems(5) obtain n' where n: "n = Suc n'" and fu: "teardown_fuel u \<le> n'"
    and fus: "teardown_loop_fuel us \<le> n'"
    by (cases n) auto
  from fu teardown_fuel_ge2 [of u] obtain n'' where n': "n' = Suc n''"
    by (cases n') auto
  from Cons.prems(3) obtain i: "i < length (m_children nd)"
    and cu: "tree_at H (m_children nd ! i) u"
    and rest: "list_all2 (tree_at H) (drop (Suc i) (m_children nd)) us"
    by (rule list_all2_dropE)
  let ?r = "tree_root u"
  from cu have c: "m_children nd ! i = Ptr ?r" by (rule tree_at_root)
  from Cons.prems(4) have du: "distinct (preorder u)"
    and a_u: "a \<notin> set (preorder u)"
    and a_us: "a \<notin> set (concat (map preorder us))"
    and dus: "distinct (concat (map preorder us))"
    and disj: "set (preorder u) \<inter> set (concat (map preorder us)) = {}"
    by auto
  let ?h1 = "after_teardown H u"
  have td: "teardown n' H ?r = Inr ?h1"
    using cu c du fu Cons.prems(1) [of u H ?r n'] by simp
  from a_u have h1a: "?h1 a = Some nd"
    using Cons.prems(2) by (auto simp: after_teardown_def preorder_root)
  with i c have child: "child_at ?h1 a i = Inr (Ptr ?r)"
    by (simp add: child_at_def)
  from cu c obtain ndr where ndr: "H ?r = Some ndr"
    by (cases u) (auto split: option.splits)
  then have "?h1 ?r = Some (cleared ndr)" by (simp add: after_teardown_def)
  then have del: "delete_tgModel n' ?h1 ?r = Inr (?h1(?r := None))"
    unfolding n' by (rule delete_cleared) (simp add: cleared_def)
  let ?h2 = "?h1(?r := None)"
  have h2: "?h2 = H |` (- set (preorder u))"
    by (rule ext) (auto simp: after_teardown_def preorder_root restrict_map_def)
  have h2a: "?h2 a = Some nd" using a_u Cons.prems(2) by (simp add: h2)
  have rest2: "list_all2 (tree_at ?h2) (drop (Suc i) (m_children nd)) us"
  proof (rule list.rel_mono_strong [OF rest])
    fix p v
    assume v: "v \<in> set us" and pv: "tree_at H p v"
    have "tree_at ?h2 p v = tree_at H p v"
    proof (rule tree_at_frame)
      fix x assume "x \<in> set (preorder v)"
      with v disj have "x \<notin> set (preorder u)" by auto
      then show "?h2 x = H x" by (simp add: h2)
    qed
    with pv show "tree_at ?h2 p v" by simp
  qed
  have "teardown_loop n' ?h2 a (Suc i) = Inr (?h2 |` (- set (concat (map preorder us))))"
  proof (rule Cons.IH [OF _ h2a rest2 _ fus])
    show "distinct (a # concat (map preorder us))" using a_us dus by simp
  next
    fix v and H' :: "('m, 't) heap" and c m
    assume "v \<in> set us" and "tree_at H' (Ptr c) v" and "distinct (preorder v)"
      and "teardown_fuel v \<le> m"
    then show "teardown m H' c = Inr (after_teardown H' v)"
      by (intro Cons.prems(1)) simp_all
  qed
  moreover have "?h2 |` (- set (concat (map preorder us))) =
      H |` (- set (concat (map preorder (u # us))))"
    by (rule ext) (simp add: h2 restrict_map_def)
  ultimately show ?case
    using n Cons.prems(2) i c td child del by simp
qed

lemma teardown_tree:
  fixes h :: "('m, 't) heap"
  shows "tree_at h (Ptr a) t \<Longrightarrow> distinct (preorder t) \<Longrightarrow> teardown_fuel t \<le> n \<Longrightarrow>
    teardown n h a = Inr (after_teardown h t)"
proof (induction t arbitrary: h a n)
  case (Tree b ts)
  from Tree.prems(1) obtain nd where b: "Ptr a = Ptr b" and nd: "h b = Some nd"
    and all: "list_all2 (tree_at h) (m_children nd) ts"
    by (rule tree_at_TreeE)
  from Tree.prems(3) obtain n' where n: "n = Suc n'" and fuel: "teardown_loop_fuel ts \<le> n'"
    by (cases n) auto
  have loop: "teardown_loop n' h b 0 = Inr (h |` (- set (concat (map preorder ts))))"
  proof (rule teardown_loop_trees [where H = h and nd = nd and us = ts and i = 0])
    fix u and H :: "('m, 't) heap" and c m
    assume "u \<in> set ts" "tree_at H (Ptr c) u" "distinct (preorder u)" "teardown_fuel u \<le> m"
    then show "teardown m H c = Inr (after_teardown H u)" by (rule Tree.IH)
  qed (use nd all Tree.prems(2) fuel in simp_all)
  let ?h1 = "h |` (- set (concat (map preorder ts)))"
  from Tree.prems(2) have "b \<notin> set (concat (map preorder ts))" by simp
  with nd have h1b: "?h1 b = Some nd" by (simp add: restrict_map_def)
  have "?h1(b \<mapsto> nd\<lparr>m_children := [], m_markers := []\<rparr>) = after_teardown h (Tree b ts)"
    using nd by (intro ext) (auto simp: after_teardown_def cleared_def restrict_map_def)
  with n b loop h1b show ?case by (simp add: invariant_def Let_def)
qed

lemma teardown_childless:
  assumes "h a = Some nd" and "m_children nd = []" and "m_markers nd = []"
  shows "teardown (Suc (Suc n)) h a = Inr h"
proof -
  have eq: "nd\<lparr>m_children := [], m_markers := []\<rparr> = nd" using assms(2,3) by simp
  have "h(a \<mapsto> nd\<lparr>m_children := [], m_markers := []\<rparr>) = h"
    unfolding eq using assms(1) by (rule map_upd_triv)
  then show ?thesis using assms(1,2) by (simp add: invariant_def)
qed

subsection \<open>Facts about the model under assembly\<close>

lemma example_tree_at: "tree_at example_heap (Ptr 1) example_tree"
  by (simp add: example_heap_def example_tree_def)

lemma example_height: "height example_tree \<le> 3"
  by (simp add: example_tree_def)

lemma example_distinct: "distinct (preorder example_tree)"
  by (simp add: example_tree_def)

lemma example_fuel: "teardown_fuel example_tree \<le> 6"
  by (simp add: example_tree_def)

lemma example_root_node:
  "example_heap 1 = Some \<lparr>m_tags = [''root''], m_children = [Ptr 2, Ptr 4], m_markers = [10]\<rparr>"
  by (simp add: example_heap_def)

lemma example_after_teardown:
  "after_teardown example_heap example_tree = example_torn_down"
  by (rule ext)
    (simp add: after_teardown_def example_heap_def example_tree_def cleared_def
      example_torn_down_def)

lemma example_strict_preorder: "strict_preorder example_tree = [2, 3, 4]"
  by (simp add: example_tree_def)

lemma example_world_objects: "objects example_world = example_heap"
  by (simp add: example_world_def)

lemma example_world_tree_at: "tree_at (objects example_world) (Ptr 1) example_tree"
  unfolding example_world_def using example_tree_at by simp

lemma example_edges:
  "(1, 2) \<in> child_edges example_heap" "(2, 3) \<in> child_edges example_heap"
  by (simp_all add: child_edges_def example_heap_def)

lemma example_cycle_diverges:
  "getDescendants n example_cycle 1 = Inl StackExhausted \<and>
   getDescendants n example_cycle 2 = Inl StackExhausted \<and>
   getDescendants n example_cycle 3 = Inl StackExhausted"
  by (induction n) (simp_all add: example_cycle_def example_heap_def)


subsection \<open>The recording visitor and the sensed pointers\<close>

lemma fold_record_render:
  "fold (\<lambda>q. record_render q (f q)) qs visited = visited @ qs"
  by (induction qs arbitrary: visited) (simp_all add: record_render_def)

lemma getSenseableDescendants_tree:
  assumes "tree_at h (Ptr a) t" and "height t \<le> n" and "h a = Some nd"
  shows "getSenseableDescendants n h a =
           Inr (map (\<lambda>q. ModelPtr (Ptr q)) (strict_preorder t) @
                map (\<lambda>k. MarkerPtr (LocalCopy k)) [0..<length (m_markers nd)])"
  using getDescendants_tree [OF assms(1,2)] assms(3)
  by (simp add: getSenseableDescendants_def getMarkers_def comp_def)

subsection \<open>The invariant assertion never fails\<close>

lemma child_at_failure: "child_at h a i = Inl e \<Longrightarrow> e = InvalidAccess"
  by (auto simp: child_at_def split: option.splits if_splits)

lemma setup_tgModel_assert:
  fixes h :: "('m, 't) heap"
  shows "setup_tgModel n world h a \<noteq> Inl (AssertionFailed ''invariant()'', s) \<and>
    setup_tgModel_loop n world h a i \<noteq> Inl (AssertionFailed ''invariant()'', s)"
proof (induction n arbitrary: h a i)
  case 0
  show ?case by simp
next
  case (Suc n)
  show ?case
    using Suc.IH
    by (auto simp: invariant_def split: sum.splits option.splits ptr.splits)
qed

lemma step_loop_assert:
  assumes "\<And>w c. rec w c \<noteq> Inl (AssertionFailed ''invariant()'', s)"
  shows "step_loop rec a i k w \<noteq> Inl (AssertionFailed ''invariant()'', s)"
  using assms
  by (induction k arbitrary: i w)
    (auto split: sum.splits ptr.splits dest: child_at_failure)

lemma step_assert:
  "step n dt w a \<noteq> Inl (AssertionFailed ''invariant()'', s)"
proof (induction n arbitrary: w a)
  case 0
  show ?case by simp
next
  case (Suc n)
  have "step_loop (step n dt) a i k w' \<noteq> Inl (AssertionFailed ''invariant()'', s)" for i k w'
    by (rule step_loop_assert) (rule Suc.IH)
  then show ?case
    by (auto simp: invariant_def Let_def split: sum.splits option.splits)
qed

lemma onVisit_loop_assert:
  assumes "\<And>c v. rec c v \<noteq> Inl (AssertionFailed ''invariant()'', s)"
  shows "onVisit_loop rec cs v \<noteq> Inl (AssertionFailed ''invariant()'', s)"
  using assms
  by (induction rec cs v rule: onVisit_loop.induct) (auto split: sum.splits)

lemma onVisit_assert:
  "onVisit n h render a v \<noteq> Inl (AssertionFailed ''invariant()'', s)"
proof (induction n arbitrary: a v)
  case 0
  show ?case by simp
next
  case (Suc n)
  have "onVisit_loop (onVisit n h render) cs v' \<noteq> Inl (AssertionFailed ''invariant()'', s)"
    for cs v'
    by (rule onVisit_loop_assert) (rule Suc.IH)
  then show ?case
    by (auto simp: invariant_def split: sum.splits option.splits)
qed

lemma destructor_loop_assert:
  assumes "\<And>h c. rec h c \<noteq> Inl (AssertionFailed ''invariant()'', s)"
  shows "destructor_loop rec a i k h \<noteq> Inl (AssertionFailed ''invariant()'', s)"
  using assms
  by (induction k arbitrary: i h)
    (auto split: sum.splits ptr.splits dest: child_at_failure)

lemma delete_tgModel_assert:
  "delete_tgModel n h a \<noteq> Inl (AssertionFailed ''invariant()'', s)"
proof (induction n arbitrary: h a)
  case 0
  show ?case by simp
next
  case (Suc n)
  have "destructor_loop (delete_tgModel n) a i k h' \<noteq> Inl (AssertionFailed ''invariant()'', s)"
    for i k h'
    by (rule destructor_loop_assert) (rule Suc.IH)
  then show ?case
    by (auto split: sum.splits option.splits)
qed

lemma teardown_assert:
  fixes h :: "('m, 't) heap"
  shows "teardown n h a \<noteq> Inl (AssertionFailed ''invariant()'', s) \<and>
    teardown_loop n h a i \<noteq> Inl (AssertionFailed ''invariant()'', s)"
proof (induction n arbitrary: h a i)
  case 0
  show ?case by simp
next
  case (Suc n)
  show ?case
    using Suc.IH delete_tgModel_assert [of n _ _ s]
    by (auto simp: invariant_def Let_def split: sum.splits option.splits ptr.splits
        dest: child_at_failure)
qed

lemma getDescendants_loop_assert:
  assumes "\<And>c. rec c \<noteq> Inl (AssertionFailed ''invariant()'')"
  shows "getDescendants_loop rec cs acc \<noteq> Inl (AssertionFailed ''invariant()'')"
  using assms
  by (induction rec cs acc rule: getDescendants_loop.induct) (auto split: sum.splits)

lemma getDescendants_assert:
  "getDescendants n h a \<noteq> Inl (AssertionFailed ''invariant()'')"
proof (induction n arbitrary: a)
  case 0
  show ?case by simp
next
  case (Suc n)
  have "getDescendants_loop (getDescendants n h) cs acc \<noteq> Inl (AssertionFailed ''invariant()'')"
    for cs acc
    by (rule getDescendants_loop_assert) (rule Suc.IH)
  then show ?case by (auto split: option.splits)
qed

lemma addChild_assert:
  "addChild n h a p \<noteq> Inl (AssertionFailed ''invariant()'', s)"
  using getDescendants_assert [of n h a]
  by (auto simp: addChild_def invariant_def Let_def split: sum.splits option.splits)

section \<open>The claims\<close>

subsection \<open>The descendant collector\<close>

text \<open>
  C4. For a node whose subtree is tree-shaped, \<^verbatim>\<open>getDescendants()\<close> returns, with any fuel
  that covers the height of the subtree, the strict descendants in pre-order: for each
  child in child order the child itself and then the child's own descendants. The
  addresses returned are exactly those reachable from the receiver over one or more child
  edges, and the result is empty when the receiver has no children. The function has no
  heap among its results, so it changes no node.
\<close>

theorem getDescendants_preorder:
  assumes "tree_at h (Ptr a) t" and "height t \<le> n"
  shows "\<exists>nd. h a = Some nd \<and>
           getDescendants n h a = Inr (map Ptr (strict_preorder t)) \<and>
           strict_preorder t = concat (map preorder (subtrees t)) \<and>
           list_all2 (tree_at h) (m_children nd) (subtrees t) \<and>
           set (strict_preorder t) = {q. (a, q) \<in> (child_edges h)\<^sup>+} \<and>
           (m_children nd = [] \<longrightarrow> getDescendants n h a = Inr [])"
proof -
  obtain b ts where t: "t = Tree b ts" by (cases t)
  with assms(1) have "tree_at h (Ptr a) (Tree b ts)" by simp
  then obtain nd where b: "Ptr a = Ptr b" and nd: "h b = Some nd"
    and all: "list_all2 (tree_at h) (m_children nd) ts"
    by (rule tree_at_TreeE)
  have res: "getDescendants n h a = Inr (map Ptr (strict_preorder t))"
    using assms by (rule getDescendants_tree)
  have reach: "set (strict_preorder t) = {q. (a, q) \<in> (child_edges h)\<^sup>+}"
    using assms(1) by (auto intro: strict_preorder_reachable reachable_strict_preorder)
  have "m_children nd = [] \<Longrightarrow> strict_preorder t = []"
    using all t by simp
  with res have leaf: "m_children nd = [] \<longrightarrow> getDescendants n h a = Inr []"
    by simp
  from b nd all t res reach leaf show ?thesis by simp
qed

theorem getDescendants_preorder_witness:
  "tree_at example_heap (Ptr 1) example_tree \<and> height example_tree \<le> 3 \<and>
   getDescendants 3 example_heap 1 = Inr [Ptr 2, Ptr 3, Ptr 4] \<and>
   set [2, 3, 4] = {q. (1, q) \<in> (child_edges example_heap)\<^sup>+} \<and>
   tree_at example_heap (Ptr 4) (Tree 4 []) \<and> height (Tree 4 []) \<le> 1 \<and>
   getDescendants 1 example_heap 4 = Inr []"
proof -
  have t1: "tree_at example_heap (Ptr 1) example_tree"
    by (simp add: example_heap_def example_tree_def)
  have h1: "height example_tree \<le> 3"
    by (simp add: example_tree_def)
  have t4: "tree_at example_heap (Ptr 4) (Tree 4 [])"
    by (simp add: example_heap_def)
  have h4: "height (Tree 4 []) \<le> 1"
    by simp
  from getDescendants_preorder [OF t1 h1] getDescendants_preorder [OF t4 h4] t1 h1 t4 h4
  show ?thesis
    by (simp add: example_tree_def example_heap_def)
qed

subsection \<open>Adding a child\<close>

text \<open>
  What the guards of \<^verbatim>\<open>addChild\<close> let through: in a tree-shaped model a candidate from
  which the receiver can be reached over child edges is not null, is not the receiver
  and is not among the receiver's descendants, so it is appended.
\<close>

lemma addChild_accepts_ancestor:
  assumes a: "tree_at h (Ptr a) t" and ab: "(a, b) \<in> (child_edges h)\<^sup>+"
    and b: "tree_at h (Ptr b) u" and fuel: "height u \<le> n"
  shows "\<exists>nd. h b = Some nd \<and>
           addChild n h b (Ptr a) = Inr (h(b \<mapsto> nd\<lparr>m_children := m_children nd @ [Ptr a]\<rparr>))"
proof -
  from b obtain nd where nd: "h b = Some nd"
    by (cases u) (auto split: option.splits)
  from a ab have "b \<in> set (strict_preorder t)" by (rule reachable_strict_preorder)
  with root_not_below [OF a] have neq: "a \<noteq> b" by auto
  have "a \<notin> set (strict_preorder u)"
  proof
    assume "a \<in> set (strict_preorder u)"
    with b have "(b, a) \<in> (child_edges h)\<^sup>+" by (rule strict_preorder_reachable)
    with ab have "(a, a) \<in> (child_edges h)\<^sup>+" by (rule trancl_trans)
    with a have "a \<in> set (strict_preorder t)" by (rule reachable_strict_preorder)
    with root_not_below [OF a] show False by simp
  qed
  with neq addChild_tree [OF b fuel nd, of "Ptr a"] nd show ?thesis by auto
qed

text \<open>
  C1, at the model under assembly. Node 3 is a strict descendant of the root 1, so
  \<^verbatim>\<open>addChild\<close> called on node 3 with the root as candidate ought to fail and leave the
  heap as it is. It returns normally instead: the root is not null, is not node 3 and is
  not among the descendants of node 3, and no other check is made. The heap has changed:
  node 3 has the root as its child, and the children form a cycle.
\<close>

theorem addChild_ancestor_accepted:
  "getDescendants 3 example_heap 1 = Inr [Ptr 2, Ptr 3, Ptr 4] \<and>
   (1, 3) \<in> (child_edges example_heap)\<^sup>+ \<and>
   addChild 3 example_heap 3 (Ptr 1) = Inr example_cycle \<and>
   example_cycle \<noteq> example_heap"
proof -
  have "example_cycle 3 \<noteq> example_heap 3"
    by (simp add: example_cycle_def example_heap_def)
  then have "example_cycle \<noteq> example_heap" by metis
  moreover have "getDescendants 3 example_heap 1 = Inr [Ptr 2, Ptr 3, Ptr 4]"
    using getDescendants_tree [OF example_tree_at example_height]
    by (simp add: example_strict_preorder)
  moreover have "(1, 3) \<in> (child_edges example_heap)\<^sup>+"
    using example_edges by (rule trancl_into_trancl2 [OF _ r_into_trancl])
  moreover have "addChild 3 example_heap 3 (Ptr 1) = Inr example_cycle"
    by (simp add: addChild_def example_cycle_def example_heap_def numeral_3_eq_3
        invariant_def)
  ultimately show ?thesis by simp
qed

text \<open>
  After that call the descendants of the root can no longer be collected: with any fuel
  the recursion from the nodes 1, 2 and 3 runs out of it.
\<close>

lemma addChild_ancestor_then_getDescendants:
  "getDescendants n example_cycle 1 = Inl StackExhausted"
  using example_cycle_diverges [of n] by simp

text \<open>
  C3. On a receiver with a tree-shaped subtree, \<^verbatim>\<open>addChild(candidate)\<close> fails with
  \<^verbatim>\<open>InvalidArgument\<close> exactly when the candidate is null, is the receiver, or occurs among
  the descendants that \<^verbatim>\<open>getDescendants()\<close> returns for the heap before the call. Every
  failure leaves the heap as it was. Otherwise the call returns and the candidate has
  been appended to the children of the receiver, which are then not empty and have the
  candidate as their last element; nothing else has changed.
\<close>

theorem addChild_checks:
  assumes "tree_at h (Ptr a) t" and "height t \<le> n"
  shows "\<exists>nd. h a = Some nd \<and>
           getDescendants n h a = Inr (map Ptr (strict_preorder t)) \<and>
           addChild n h a p =
             (if p = NULL then Inl (InvalidArgument ''child is NULL'', h)
              else if p = Ptr a then Inl (InvalidArgument ''child is this object'', h)
              else if p \<in> set (map Ptr (strict_preorder t))
                then Inl (InvalidArgument ''child is already a descendant'', h)
              else Inr (h(a \<mapsto> nd\<lparr>m_children := m_children nd @ [p]\<rparr>))) \<and>
           (\<forall>e h'. addChild n h a p = Inl (e, h') \<longrightarrow>
              h' = h \<and> (\<exists>msg. e = InvalidArgument msg)) \<and>
           (\<forall>h'. addChild n h a p = Inr h' \<longrightarrow>
              (\<exists>nd'. h' a = Some nd' \<and> m_children nd' = m_children nd @ [p] \<and>
                 m_children nd' \<noteq> [] \<and> last (m_children nd') = p \<and>
                 m_markers nd' = m_markers nd \<and> m_tags nd' = m_tags nd) \<and>
              (\<forall>x. x \<noteq> a \<longrightarrow> h' x = h x))"
proof -
  obtain b ts where t: "t = Tree b ts" by (cases t)
  with assms(1) have "tree_at h (Ptr a) (Tree b ts)" by simp
  then obtain nd where "Ptr a = Ptr b" and "h b = Some nd"
    by (rule tree_at_TreeE)
  then have nd: "h a = Some nd" by simp
  have ds: "getDescendants n h a = Inr (map Ptr (strict_preorder t))"
    using assms by (rule getDescendants_tree)
  note eq = addChild_tree [OF assms nd, of p]
  have fail: "\<forall>e h'. addChild n h a p = Inl (e, h') \<longrightarrow>
      h' = h \<and> (\<exists>msg. e = InvalidArgument msg)"
    unfolding eq by (simp split: if_splits)
  have ok: "\<forall>h'. addChild n h a p = Inr h' \<longrightarrow>
      (\<exists>nd'. h' a = Some nd' \<and> m_children nd' = m_children nd @ [p] \<and>
         m_children nd' \<noteq> [] \<and> last (m_children nd') = p \<and>
         m_markers nd' = m_markers nd \<and> m_tags nd' = m_tags nd) \<and>
      (\<forall>x. x \<noteq> a \<longrightarrow> h' x = h x)"
    unfolding eq by (auto split: if_splits)
  have eq': "addChild n h a p =
      (if p = NULL then Inl (InvalidArgument ''child is NULL'', h)
       else if p = Ptr a then Inl (InvalidArgument ''child is this object'', h)
       else if p \<in> set (map Ptr (strict_preorder t))
         then Inl (InvalidArgument ''child is already a descendant'', h)
       else Inr (h(a \<mapsto> nd\<lparr>m_children := m_children nd @ [p]\<rparr>)))"
    unfolding eq by simp
  from nd ds eq' fail ok show ?thesis by blast
qed

theorem addChild_checks_witness:
  "tree_at example_heap (Ptr 1) example_tree \<and> height example_tree \<le> 3 \<and>
   getDescendants 3 example_heap 1 = Inr [Ptr 2, Ptr 3, Ptr 4] \<and>
   addChild 3 example_heap 1 NULL = Inl (InvalidArgument ''child is NULL'', example_heap) \<and>
   addChild 3 example_heap 1 (Ptr 1) =
     Inl (InvalidArgument ''child is this object'', example_heap) \<and>
   addChild 3 example_heap 1 (Ptr 3) =
     Inl (InvalidArgument ''child is already a descendant'', example_heap) \<and>
   addChild 3 example_heap 1 (Ptr 5) =
     Inr (example_heap(1 \<mapsto>
       \<lparr>m_tags = [''root''], m_children = [Ptr 2, Ptr 4, Ptr 5], m_markers = [10]\<rparr>))"
proof -
  let ?nd = "\<lparr>m_tags = [''root''], m_children = [Ptr 2, Ptr 4], m_markers = [10::nat]\<rparr>"
  have add: "addChild 3 example_heap 1 p =
      (if p = NULL then Inl (InvalidArgument ''child is NULL'', example_heap)
       else if p = Ptr 1 then Inl (InvalidArgument ''child is this object'', example_heap)
       else if p \<in> set (map Ptr (strict_preorder example_tree))
         then Inl (InvalidArgument ''child is already a descendant'', example_heap)
       else Inr (example_heap(1 \<mapsto> ?nd\<lparr>m_children := m_children ?nd @ [p]\<rparr>)))" for p
  proof -
    from addChild_checks [OF example_tree_at example_height, of p]
    obtain nd where "example_heap 1 = Some nd"
      and "addChild 3 example_heap 1 p =
        (if p = NULL then Inl (InvalidArgument ''child is NULL'', example_heap)
         else if p = Ptr 1 then Inl (InvalidArgument ''child is this object'', example_heap)
         else if p \<in> set (map Ptr (strict_preorder example_tree))
           then Inl (InvalidArgument ''child is already a descendant'', example_heap)
         else Inr (example_heap(1 \<mapsto> nd\<lparr>m_children := m_children nd @ [p]\<rparr>)))"
      by blast
    with example_root_node show ?thesis by simp
  qed
  have ds: "getDescendants 3 example_heap 1 = Inr [Ptr 2, Ptr 3, Ptr 4]"
    using getDescendants_tree [OF example_tree_at example_height]
    by (simp add: example_strict_preorder)
  have "addChild 3 example_heap 1 NULL = Inl (InvalidArgument ''child is NULL'', example_heap)"
    using add [of NULL] by simp
  moreover have "addChild 3 example_heap 1 (Ptr 1) =
      Inl (InvalidArgument ''child is this object'', example_heap)"
    using add [of "Ptr 1"] by simp
  moreover have "addChild 3 example_heap 1 (Ptr 3) =
      Inl (InvalidArgument ''child is already a descendant'', example_heap)"
    using add [of "Ptr 3"] by (simp add: example_strict_preorder)
  moreover have "addChild 3 example_heap 1 (Ptr 5) =
     Inr (example_heap(1 \<mapsto>
       \<lparr>m_tags = [''root''], m_children = [Ptr 2, Ptr 4, Ptr 5], m_markers = [10]\<rparr>))"
    using add [of "Ptr 5"] by (simp add: example_strict_preorder)
  ultimately show ?thesis using ds example_tree_at example_height by blast
qed

subsection \<open>Stepping\<close>

text \<open>
  C2. On a receiver with a tree-shaped subtree, \<^verbatim>\<open>step(dt)\<close> fails if and only if
  \<^verbatim>\<open>dt <= 0.0\<close>, and then with \<^verbatim>\<open>InvalidArgument\<close>. The failure is raised in the state of
  the call with only the entry into the receiver's own \<^verbatim>\<open>step\<close> recorded: the heap is
  unchanged and \<^verbatim>\<open>step\<close> has been entered on no child. Otherwise the call returns and
  \<^verbatim>\<open>step\<close> has been entered on the receiver and then on every descendant, once each in
  the order of \<^verbatim>\<open>getDescendants()\<close>, so on the children in child order.
\<close>

theorem step_validates_dt:
  fixes w :: "('m, 't) world"
  assumes "tree_at (objects w) (Ptr a) t" and "height t \<le> n"
  shows "getDescendants n (objects w) a = Inr (map Ptr (strict_preorder t)) \<and>
         step n dt w a =
           (if le_zero dt
            then Inl (InvalidArgument ''dt is not positive'',
                      w\<lparr>step_calls := step_calls w @ [a]\<rparr>)
            else Inr (w\<lparr>step_calls := step_calls w @ a # strict_preorder t\<rparr>))"
proof -
  have ds: "getDescendants n (objects w) a = Inr (map Ptr (strict_preorder t))"
    using assms by (rule getDescendants_tree)
  from assms(2) obtain m where n: "n = Suc m" by (cases t; cases n) auto
  from assms(1) have "a = tree_root t" by (auto dest: tree_at_root)
  then have pre: "preorder t = a # strict_preorder t" by (simp add: preorder_root)
  have "step n dt w a =
      Inl (InvalidArgument ''dt is not positive'', w\<lparr>step_calls := step_calls w @ [a]\<rparr>)"
    if "le_zero dt"
    using that n by simp
  moreover have "step n dt w a = Inr (w\<lparr>step_calls := step_calls w @ a # strict_preorder t\<rparr>)"
    if "\<not> le_zero dt"
    using step_tree [OF assms that] pre by simp
  ultimately show ?thesis using ds by auto
qed

theorem step_validates_dt_witness:
  "tree_at (objects example_world) (Ptr 1) example_tree \<and> height example_tree \<le> 3 \<and>
   getDescendants 3 (objects example_world) 1 = Inr [Ptr 2, Ptr 3, Ptr 4] \<and>
   step 3 (Finite 0) example_world 1 =
     Inl (InvalidArgument ''dt is not positive'', \<lparr>objects = example_heap, step_calls = [1]\<rparr>) \<and>
   step 3 (Finite (- 1)) example_world 1 =
     Inl (InvalidArgument ''dt is not positive'', \<lparr>objects = example_heap, step_calls = [1]\<rparr>) \<and>
   step 3 (Finite 1) example_world 1 =
     Inr \<lparr>objects = example_heap, step_calls = [1, 2, 3, 4]\<rparr>"
proof -
  have ds: "getDescendants 3 (objects example_world) 1 = Inr [Ptr 2, Ptr 3, Ptr 4]"
    using getDescendants_tree [OF example_world_tree_at example_height]
    by (simp add: example_tree_def)
  from step_validates_dt [OF example_world_tree_at example_height, of "Finite 0"]
    step_validates_dt [OF example_world_tree_at example_height, of "Finite (- 1)"]
    step_validates_dt [OF example_world_tree_at example_height, of "Finite 1"]
    ds example_world_tree_at example_height
  show ?thesis by (simp add: example_world_def example_tree_def)
qed

text \<open>
  C9. For a receiver with a tree-shaped subtree and a \<^verbatim>\<open>dt\<close> that is not \<^verbatim>\<open><= 0.0\<close>,
  \<^verbatim>\<open>step(dt)\<close> returns and the receiver's state, its children, markers and tags, is the
  same after the call as before; indeed the whole heap is.
\<close>

theorem step_keeps_receiver:
  fixes w :: "('m, 't) world"
  assumes "tree_at (objects w) (Ptr a) t" and "height t \<le> n" and "\<not> le_zero dt"
  shows "\<exists>w' nd. step n dt w a = Inr w' \<and> objects w a = Some nd \<and> objects w' a = Some nd \<and>
           objects w' = objects w"
proof -
  from assms(1) obtain nd where "objects w a = Some nd"
    by (cases t) (auto split: option.splits)
  with step_tree [OF assms] show ?thesis by simp
qed

theorem step_keeps_receiver_witness:
  "tree_at (objects example_world) (Ptr 1) example_tree \<and> height example_tree \<le> 3 \<and>
   \<not> le_zero (Finite 1) \<and>
   (\<exists>w'. step 3 (Finite 1) example_world 1 = Inr w' \<and>
      objects w' 1 =
        Some \<lparr>m_tags = [''root''], m_children = [Ptr 2, Ptr 4], m_markers = [10]\<rparr> \<and>
      objects w' = example_heap)"
proof -
  have dt: "\<not> le_zero (Finite 1)" by simp
  from step_keeps_receiver [OF example_world_tree_at example_height dt]
  obtain w' where "step 3 (Finite 1) example_world 1 = Inr w'"
    and "objects w' = objects example_world"
    by blast
  then have "step 3 (Finite 1) example_world 1 = Inr w' \<and>
      objects w' 1 =
        Some \<lparr>m_tags = [''root''], m_children = [Ptr 2, Ptr 4], m_markers = [10]\<rparr> \<and>
      objects w' = example_heap"
    unfolding example_world_objects using example_root_node by simp
  with example_world_tree_at example_height dt show ?thesis by blast
qed

subsection \<open>Visiting\<close>

text \<open>
  C5. On a receiver whose subtree is tree-shaped with no node shared, \<^verbatim>\<open>onVisit(visitor)\<close>
  returns the visitor after its \<^verbatim>\<open>render\<close> has been applied to the receiver first and then
  to the strict descendants in exactly the order of \<^verbatim>\<open>getDescendants()\<close>. The nodes
  rendered are pairwise distinct and are exactly the nodes reachable from the receiver
  over child edges, the receiver included, so every node of the subtree is rendered
  exactly once.
\<close>

theorem onVisit_preorder_once:
  fixes h :: "('m, 't) heap"
  assumes "tree_at h (Ptr a) t" and "distinct (preorder t)" and "height t \<le> n"
  shows "getDescendants n h a = Inr (map Ptr (strict_preorder t)) \<and>
         onVisit n h render a v =
           Inr (fold (\<lambda>q. render q (the (h q))) (a # strict_preorder t) v) \<and>
         onVisit n h record_render a [] = Inr (a # strict_preorder t) \<and>
         distinct (a # strict_preorder t) \<and>
         set (a # strict_preorder t) = {q. (a, q) \<in> (child_edges h)\<^sup>*}"
proof -
  have ds: "getDescendants n h a = Inr (map Ptr (strict_preorder t))"
    using assms(1,3) by (rule getDescendants_tree)
  from assms(1) have "a = tree_root t" by (auto dest: tree_at_root)
  then have pre: "preorder t = a # strict_preorder t" by (simp add: preorder_root)
  have visit: "onVisit n h r a u = Inr (fold (\<lambda>q. r q (the (h q))) (a # strict_preorder t) u)"
    for r :: "addr \<Rightarrow> ('m, 't) tgModel \<Rightarrow> 'x \<Rightarrow> 'x" and u
    using onVisit_tree [OF assms(1,3), of r u] pre by simp
  have rec: "onVisit n h record_render a [] = Inr (a # strict_preorder t)"
    using visit [of record_render "[]"]
      fold_record_render [of "\<lambda>q. the (h q)" "a # strict_preorder t" "[]"]
    by simp
  have "set (strict_preorder t) = {q. (a, q) \<in> (child_edges h)\<^sup>+}"
    using assms(1) by (auto intro: strict_preorder_reachable reachable_strict_preorder)
  then have reach: "set (a # strict_preorder t) = {q. (a, q) \<in> (child_edges h)\<^sup>*}"
    by (auto simp: rtrancl_eq_or_trancl)
  from assms(2) pre have "distinct (a # strict_preorder t)" by simp
  with ds visit [of render v] rec reach show ?thesis by blast
qed

theorem onVisit_preorder_once_witness:
  "tree_at example_heap (Ptr 1) example_tree \<and> distinct (preorder example_tree) \<and>
   height example_tree \<le> 3 \<and>
   getDescendants 3 example_heap 1 = Inr [Ptr 2, Ptr 3, Ptr 4] \<and>
   onVisit 3 example_heap record_render 1 [] = Inr [1, 2, 3, 4] \<and>
   distinct [1, 2, 3, 4 :: nat]"
proof -
  from onVisit_preorder_once [OF example_tree_at example_distinct example_height,
      of "record_render" "[]"]
  have "getDescendants 3 example_heap 1 = Inr (map Ptr (strict_preorder example_tree))"
    and "onVisit 3 example_heap record_render 1 [] = Inr (1 # strict_preorder example_tree)"
    and "distinct (1 # strict_preorder example_tree)"
    by blast+
  then have "getDescendants 3 example_heap 1 = Inr [Ptr 2, Ptr 3, Ptr 4]"
    and "onVisit 3 example_heap record_render 1 [] = Inr [1, 2, 3, 4]"
    and "distinct [1, 2, 3, 4 :: nat]"
    unfolding example_strict_preorder by simp_all
  with example_tree_at example_distinct example_height show ?thesis by blast
qed

subsection \<open>Teardown\<close>

text \<open>
  C7. On a receiver whose subtree is tree-shaped with no node shared, \<^verbatim>\<open>teardown()\<close>
  returns with any fuel that covers its calls and iterations. Afterwards the receiver
  has no children and no markers, \<^verbatim>\<open>getDescendants()\<close> returns the empty sequence, and a
  second \<^verbatim>\<open>teardown()\<close> returns the same heap.
\<close>

theorem teardown_clears:
  fixes h :: "('m, 't) heap"
  assumes "tree_at h (Ptr a) t" and "distinct (preorder t)" and "teardown_fuel t \<le> n"
  shows "\<exists>h' nd'. teardown n h a = Inr h' \<and> h' = after_teardown h t \<and>
           h' a = Some nd' \<and> m_children nd' = [] \<and> m_markers nd' = [] \<and>
           getDescendants n h' a = Inr [] \<and>
           teardown n h' a = Inr h'"
proof -
  let ?h' = "after_teardown h t"
  have td: "teardown n h a = Inr ?h'" using assms by (rule teardown_tree)
  from assms(1) obtain nd where nd: "h a = Some nd"
    by (cases t) (auto split: option.splits)
  from assms(1) have "Ptr a = Ptr (tree_root t)" by (rule tree_at_root)
  with nd have h'a: "?h' a = Some (cleared nd)" by (simp add: after_teardown_def)
  from assms(3) teardown_fuel_ge2 [of t] obtain m where n: "n = Suc (Suc m)"
    by (cases n; cases "n - 1") auto
  have "getDescendants n ?h' a = Inr []" using h'a n by (simp add: cleared_def)
  moreover have "teardown n ?h' a = Inr ?h'"
    unfolding n using h'a by (rule teardown_childless) (simp_all add: cleared_def)
  ultimately show ?thesis using td h'a by (simp add: cleared_def)
qed

theorem teardown_clears_witness:
  "tree_at example_heap (Ptr 1) example_tree \<and> distinct (preorder example_tree) \<and>
   teardown_fuel example_tree \<le> 6 \<and>
   teardown 6 example_heap 1 = Inr example_torn_down \<and>
   getDescendants 6 example_torn_down 1 = Inr [] \<and>
   teardown 6 example_torn_down 1 = Inr example_torn_down"
proof -
  from teardown_clears [OF example_tree_at example_distinct example_fuel]
  have "teardown 6 example_heap 1 = Inr (after_teardown example_heap example_tree) \<and>
      getDescendants 6 (after_teardown example_heap example_tree) 1 = Inr [] \<and>
      teardown 6 (after_teardown example_heap example_tree) 1 =
        Inr (after_teardown example_heap example_tree)"
    by blast
  then show ?thesis
    unfolding example_after_teardown
    using example_tree_at example_distinct example_fuel by blast
qed

subsection \<open>Markers\<close>

text \<open>
  C8. \<^verbatim>\<open>addMarker(m)\<close> stores the value that the caller's marker has at the call: when the
  caller passes its variable \<open>x\<close> and afterwards assigns another marker to \<open>x\<close>, the markers
  of the receiver are the old ones followed by the value \<open>x\<close> had at the call.
\<close>

theorem addMarker_copies_value:
  assumes "h a = Some nd"
  shows "\<exists>h'. caller_run [CallAddMarker a x, Assign x m'] (vs, h) = Inr (vs(x := m'), h') \<and>
           addMarker h a (vs x) = Inr h' \<and>
           getMarkers h' a = Inr (m_markers nd @ [vs x])"
  using assms by (simp add: addMarker_def getMarkers_def)

theorem addMarker_copies_value_witness:
  "example_heap 1 =
     Some \<lparr>m_tags = [''root''], m_children = [Ptr 2, Ptr 4], m_markers = [10]\<rparr> \<and>
   (\<exists>h'. caller_run [CallAddMarker 1 ''m'', Assign ''m'' 8] (example_vars, example_heap) =
            Inr (example_vars(''m'' := 8), h') \<and>
          getMarkers h' 1 = Inr [10, 7])"
  using addMarker_copies_value [where h = example_heap and a = 1 and x = "''m''"
      and m' = 8 and vs = example_vars, OF example_root_node]
    example_root_node
  by (auto simp: example_vars_def)

text \<open>
  C6, at the root of the model under assembly, which owns the marker 10.
  \<^verbatim>\<open>getSenseableDescendants()\<close> returns the descendants in the order of
  \<^verbatim>\<open>getDescendants()\<close>, followed by one pointer for the root's marker and none for the
  marker of node 3. The marker pointer is the address of element 0 of the local vector
  \<^verbatim>\<open>myMarkers\<close>, not of element 0 of the root's \<^verbatim>\<open>m_markers\<close>: after the call it refers
  to no marker, while the root's own marker is still there.
\<close>

theorem getSenseableDescendants_local_copies:
  "getSenseableDescendants 3 example_heap 1 =
     Inr [ModelPtr (Ptr 2), ModelPtr (Ptr 3), ModelPtr (Ptr 4), MarkerPtr (LocalCopy 0)] \<and>
   marker_at example_heap (LocalCopy 0) = None \<and>
   marker_at example_heap (OwnedMarker 1 0) = Some 10"
proof -
  have "getSenseableDescendants 3 example_heap 1 =
      Inr [ModelPtr (Ptr 2), ModelPtr (Ptr 3), ModelPtr (Ptr 4), MarkerPtr (LocalCopy 0)]"
    using getSenseableDescendants_tree [OF example_tree_at example_height example_root_node]
    unfolding example_strict_preorder by simp
  moreover have "marker_at example_heap (OwnedMarker 1 0) = Some 10"
    by (simp add: example_heap_def)
  ultimately show ?thesis by simp
qed

subsection \<open>The invariant\<close>

text \<open>
  C10. \<^verbatim>\<open>invariant()\<close> returns true in every node state, so no \<^verbatim>\<open>assert(invariant())\<close>
  fails: the constructor returns its node, and \<^verbatim>\<open>setup\<close>, \<^verbatim>\<open>step\<close>, \<^verbatim>\<open>teardown\<close>,
  \<^verbatim>\<open>onVisit\<close> and \<^verbatim>\<open>addChild\<close> never end with that assertion failed. The checks named in
  the comments of the function are not made: the invariant is true of a node with a null
  child and with the same child twice.
\<close>

theorem invariant_always_true:
  fixes nd :: "('m, 't) tgModel" and h :: "('m, 't) heap" and w :: "('m, 't) world"
  shows "invariant nd \<and>
    invariant (nd\<lparr>m_children := [NULL, Ptr c, Ptr c]\<rparr>) \<and>
    (tgModel_new tags :: failure + ('m, 't) tgModel) =
      Inr \<lparr>m_tags = tags, m_children = [], m_markers = []\<rparr> \<and>
    setup_tgModel n world h a \<noteq> Inl (AssertionFailed ''invariant()'', s) \<and>
    step n dt w a \<noteq> Inl (AssertionFailed ''invariant()'', s') \<and>
    teardown n h a \<noteq> Inl (AssertionFailed ''invariant()'', s) \<and>
    onVisit n h render a v \<noteq> Inl (AssertionFailed ''invariant()'', v') \<and>
    addChild n h a p \<noteq> Inl (AssertionFailed ''invariant()'', s)"
  using setup_tgModel_assert [of n world h a s] step_assert [of n dt w a s']
    teardown_assert [of n h a s] onVisit_assert [of n h render a v v']
    addChild_assert [of n h a p s]
  by (simp add: invariant_def tgModel_new_def)

end
